theory Spec2Isabelle
  imports Main
begin

section \<open>Data model\<close>

text \<open>
  The exceptions the encoder can raise, as values. \<open>KeyError\<close> is a missed dict lookup,
  \<open>IndexError\<close> an out-of-range list or tensor index, \<open>ValueError\<close> is \<open>max()\<close> of an
  empty sequence or a numpy shape mismatch, \<open>EngineError\<close> is any failure inside the
  graph neural network.
\<close>

datatype error = KeyError | IndexError | ValueError | EngineError

text \<open>
  The attributes of a syntax node and of a syntax tree that the encoder reads. The field
  \<open>tree_size\<close> is the tree's \<open>size\<close>; \<open>id_to_node\<close> is a dict, kept as an
  association list and read with \<open>map_of\<close>.
\<close>

record syntax_node =
  node_id :: int
  is_variable_node :: bool
  var_id :: string
  node_type :: string

record abstract_syntax_tree =
  adjacency_list :: "(syntax_node \<times> syntax_node) list"
  adjacent_terminal_nodes :: "(int \<times> int) list"
  id_to_node :: "(int \<times> syntax_node) list"
  tree_size :: nat

record AdjacencyList =
  node_num :: nat
  adj_list :: "(nat \<times> nat) list"

text \<open>
  \<open>tree_node2batch_graph_node\<close> is an \<open>OrderedDict\<close> from (tree index, local node id)
  to the node's id in the batch graph: an association list in insertion order.
\<close>

type_synonym tree_node = "nat \<times> int"
type_synonym node_map = "(tree_node \<times> nat) list"
type_synonym edges = "(nat \<times> nat) list"

text \<open>
  The parts of \<open>self\<close> the encoder uses: the vocabulary \<open>vocab.source\<close> (lookup and
  length), the grammar's \<open>syntax_type_to_id\<close> dict, the weight of \<open>src_node_embedding\<close>
  and the graph neural network \<open>gnn.compute_node_representations\<close>, which is taken as
  a parameter.
\<close>

record 'a encoder =
  vocab_source :: "string \<rightharpoonup> int"
  vocab_source_len :: nat
  syntax_type_to_id :: "string \<rightharpoonup> int"
  src_node_embedding :: "'a list list"
  gnn :: "'a list list \<Rightarrow> AdjacencyList list \<Rightarrow> error + 'a list list"

record 'a unpacked =
  batch_tree_node_encoding :: "'a list list list"
  batch_tree_node_masks :: "int list list"

section \<open>Building the batch graph\<close>

text \<open>\<open>d.setdefault(k, v)\<close>: the value stored under \<open>k\<close>, after storing \<open>v\<close> if there was none.\<close>

definition setdefault :: "('k \<times> 'v) list \<Rightarrow> 'k \<Rightarrow> 'v \<Rightarrow> 'v \<times> ('k \<times> 'v) list" where
  "setdefault d k v = (case map_of d k of Some w \<Rightarrow> (w, d) | None \<Rightarrow> (v, d @ [(k, v)]))"

text \<open>The state of the two loops: the dict and the four edge lists.\<close>

record batch_state =
  tree_node2batch_graph_node :: node_map
  ast_adj_list :: edges
  reversed_ast_adj_list :: edges
  terminal_nodes_adj_list :: edges
  reversed_terminal_nodes_adj_list :: edges

text \<open>The loop over \<open>syntax_tree.adjacency_list\<close>.\<close>

fun add_tree_edges :: "nat \<Rightarrow> (syntax_node \<times> syntax_node) list \<Rightarrow> batch_state \<Rightarrow> batch_state" where
  "add_tree_edges ast_id [] st = st"
| "add_tree_edges ast_id ((prev_node, succ_node) # es) st =
     (let m = tree_node2batch_graph_node st;
          (node_s_batch_id, m1) = setdefault m (ast_id, node_id prev_node) (length m);
          (node_t_batch_id, m2) = setdefault m1 (ast_id, node_id succ_node) (length m1)
      in add_tree_edges ast_id es
           (st\<lparr>tree_node2batch_graph_node := m2,
               ast_adj_list := ast_adj_list st @ [(node_s_batch_id, node_t_batch_id)],
               reversed_ast_adj_list :=
                 reversed_ast_adj_list st @ [(node_t_batch_id, node_s_batch_id)]\<rparr>))"

text \<open>The loop over \<open>syntax_tree.adjacent_terminal_nodes\<close>; a missing key raises.\<close>

fun add_terminal_edges :: "nat \<Rightarrow> (int \<times> int) list \<Rightarrow> batch_state \<Rightarrow> error + batch_state" where
  "add_terminal_edges ast_id [] st = Inr st"
| "add_terminal_edges ast_id ((n, succ_node_id) # ps) st =
     (case map_of (tree_node2batch_graph_node st) (ast_id, n) of
        None \<Rightarrow> Inl KeyError
      | Some cur_token_batch_id \<Rightarrow>
          (case map_of (tree_node2batch_graph_node st) (ast_id, succ_node_id) of
             None \<Rightarrow> Inl KeyError
           | Some next_token_batch_id \<Rightarrow>
               add_terminal_edges ast_id ps
                 (st\<lparr>terminal_nodes_adj_list :=
                       terminal_nodes_adj_list st @ [(cur_token_batch_id, next_token_batch_id)],
                     reversed_terminal_nodes_adj_list :=
                       reversed_terminal_nodes_adj_list st
                         @ [(next_token_batch_id, cur_token_batch_id)]\<rparr>)))"

text \<open>The loop over \<open>enumerate(asts)\<close>, from index \<open>ast_id\<close> on.\<close>

fun add_asts :: "nat \<Rightarrow> abstract_syntax_tree list \<Rightarrow> batch_state \<Rightarrow> error + batch_state" where
  "add_asts ast_id [] st = Inr st"
| "add_asts ast_id (syntax_tree # rest) st =
     (case add_terminal_edges ast_id (adjacent_terminal_nodes syntax_tree)
             (add_tree_edges ast_id (adjacency_list syntax_tree) st) of
        Inl e \<Rightarrow> Inl e
      | Inr st' \<Rightarrow> add_asts (Suc ast_id) rest st')"

definition empty_state :: batch_state where
  "empty_state = \<lparr>tree_node2batch_graph_node = [], ast_adj_list = [],
     reversed_ast_adj_list = [], terminal_nodes_adj_list = [],
     reversed_terminal_nodes_adj_list = []\<rparr>"

text \<open>\<open>d[k] = v\<close> on an \<open>OrderedDict\<close>, and \<open>OrderedDict(pairs)\<close>.\<close>

fun dict_set :: "('k \<times> 'v) list \<Rightarrow> 'k \<Rightarrow> 'v \<Rightarrow> ('k \<times> 'v) list" where
  "dict_set [] k v = [(k, v)]"
| "dict_set ((k', v') # d) k v = (if k' = k then (k', v) # d else (k', v') # dict_set d k v)"

definition ordered_dict :: "('k \<times> 'v) list \<Rightarrow> ('k \<times> 'v) list" where
  "ordered_dict ps = fold (\<lambda>(k, v) d. dict_set d k v) ps []"

definition get_batched_adjacency_lists ::
  "abstract_syntax_tree list \<Rightarrow> error + (AdjacencyList list \<times> node_map \<times> (nat \<times> tree_node) list)" where
  "get_batched_adjacency_lists asts =
     (case add_asts 0 asts empty_state of
        Inl e \<Rightarrow> Inl e
      | Inr st \<Rightarrow>
          (let all_nodes_num = length (tree_node2batch_graph_node st);
               adj_lists =
                 [\<lparr>node_num = all_nodes_num, adj_list = ast_adj_list st\<rparr>,
                  \<lparr>node_num = all_nodes_num, adj_list = reversed_ast_adj_list st\<rparr>]
                 @ (if terminal_nodes_adj_list st \<noteq> []
                    then [\<lparr>node_num = all_nodes_num, adj_list = terminal_nodes_adj_list st\<rparr>,
                          \<lparr>node_num = all_nodes_num,
                            adj_list = reversed_terminal_nodes_adj_list st\<rparr>]
                    else []);
               batch_graph_node2tree_node =
                 ordered_dict (map (\<lambda>(k, v). (v, k)) (tree_node2batch_graph_node st))
           in Inr (adj_lists, tree_node2batch_graph_node st, batch_graph_node2tree_node)))"

section \<open>Initial node encodings\<close>

text \<open>
  The loop of \<open>get_batched_tree_init_encoding\<close> over the items of
  \<open>batch_graph_node2tree_node\<close>: the \<open>i\<close>-th item gives \<open>indices[i]\<close>.
\<close>

fun init_indices ::
  "'a encoder \<Rightarrow> abstract_syntax_tree list \<Rightarrow> (nat \<times> tree_node) list \<Rightarrow> error + int list" where
  "init_indices enc asts [] = Inr []"
| "init_indices enc asts ((batch_node_id, (tree_id, tree_node_id)) # items) =
     (if length asts \<le> tree_id then Inl IndexError
      else case map_of (id_to_node (asts ! tree_id)) tree_node_id of
        None \<Rightarrow> Inl KeyError
      | Some node \<Rightarrow>
          (case (if is_variable_node node then vocab_source enc (var_id node)
                 else map_option (\<lambda>g. g + int (vocab_source_len enc))
                        (syntax_type_to_id enc (node_type node))) of
             None \<Rightarrow> Inl KeyError
           | Some idx \<Rightarrow>
               (case init_indices enc asts items of
                  Inl e \<Rightarrow> Inl e
                | Inr idxs \<Rightarrow> Inr (idx # idxs))))"

text \<open>\<open>nn.Embedding\<close>: row \<open>idx\<close> of the weight for each index, which must be in range.\<close>

fun embedding :: "'a list list \<Rightarrow> int list \<Rightarrow> error + 'a list list" where
  "embedding weight [] = Inr []"
| "embedding weight (idx # idxs) =
     (if idx < 0 \<or> int (length weight) \<le> idx then Inl IndexError
      else case embedding weight idxs of
        Inl e \<Rightarrow> Inl e
      | Inr vs \<Rightarrow> Inr (weight ! nat idx # vs))"

definition get_batched_tree_init_encoding ::
  "'a encoder \<Rightarrow> abstract_syntax_tree list \<Rightarrow> node_map \<Rightarrow> (nat \<times> tree_node) list
     \<Rightarrow> error + 'a list list" where
  "get_batched_tree_init_encoding enc asts tree_node2batch batch_graph_node2tree_node =
     (case init_indices enc asts batch_graph_node2tree_node of
        Inl e \<Rightarrow> Inl e
      | Inr indices \<Rightarrow> embedding (src_node_embedding enc) indices)"

section \<open>Unpacking\<close>

text \<open>\<open>max(tree.size for tree in batch_syntax_trees)\<close>, which raises on an empty batch.\<close>

definition max_node_num :: "abstract_syntax_tree list \<Rightarrow> error + nat" where
  "max_node_num trees =
     (case trees of [] \<Rightarrow> Inl ValueError
      | t # ts \<Rightarrow> Inr (fold (\<lambda>tree acc. max acc (tree_size tree)) ts (tree_size t)))"

text \<open>The batch ids of the nodes of tree \<open>e_id\<close>, sorted by local node id.\<close>

definition example_nodes_batch_id :: "node_map \<Rightarrow> nat \<Rightarrow> nat list" where
  "example_nodes_batch_id example_node2batch_node_map e_id =
     map snd (sort_key fst
       [(example_node_id, batch_node_id).
          ((e, example_node_id), batch_node_id) \<leftarrow> example_node2batch_node_map, e = e_id])"

text \<open>
  \<open>index[e_id, :len(ids)] = ids\<close> on a zero row of length \<open>n\<close>: the slice has
  \<open>min (len ids) n\<close> places; numpy accepts a value of the same length, broadcasts a
  value of length 1 and raises otherwise.
\<close>

definition index_row :: "nat \<Rightarrow> nat list \<Rightarrow> error + nat list" where
  "index_row n ids =
     (let s = min (length ids) n in
      if length ids = s then Inr (ids @ replicate (n - s) 0)
      else if length ids = 1 then Inr (replicate s (hd ids) @ replicate (n - s) 0)
      else Inl ValueError)"

text \<open>\<open>batch_tree_node_masks[e_id, :len(ids)] = 1.\<close> on a zero row of length \<open>n\<close>.\<close>

definition mask_row :: "nat \<Rightarrow> nat list \<Rightarrow> int list" where
  "mask_row n ids = replicate (min (length ids) n) 1 @ replicate (n - min (length ids) n) 0"

text \<open>The loop over \<open>enumerate(batch_syntax_trees)\<close>, from index \<open>e_id\<close> on.\<close>

fun index_rows ::
  "nat \<Rightarrow> nat \<Rightarrow> abstract_syntax_tree list \<Rightarrow> node_map \<Rightarrow> error + (nat list list \<times> int list list)" where
  "index_rows n e_id [] m = Inr ([], [])"
| "index_rows n e_id (syntax_tree # rest) m =
     (case index_row n (example_nodes_batch_id m e_id) of
        Inl e \<Rightarrow> Inl e
      | Inr row \<Rightarrow>
          (case index_rows n (Suc e_id) rest m of
             Inl e \<Rightarrow> Inl e
           | Inr (index, masks) \<Rightarrow>
               Inr (row # index, mask_row n (example_nodes_batch_id m e_id) # masks)))"

text \<open>\<open>flattened_node_encodings[index]\<close>: every entry of \<open>index\<close> must be a valid row.\<close>

fun gather_row :: "'a list list \<Rightarrow> nat list \<Rightarrow> error + 'a list list" where
  "gather_row flat [] = Inr []"
| "gather_row flat (i # is) =
     (if length flat \<le> i then Inl IndexError
      else case gather_row flat is of
        Inl e \<Rightarrow> Inl e
      | Inr vs \<Rightarrow> Inr (flat ! i # vs))"

fun gather :: "'a list list \<Rightarrow> nat list list \<Rightarrow> error + 'a list list list" where
  "gather flat [] = Inr []"
| "gather flat (row # rows) =
     (case gather_row flat row of
        Inl e \<Rightarrow> Inl e
      | Inr vs \<Rightarrow>
          (case gather flat rows of
             Inl e \<Rightarrow> Inl e
           | Inr vss \<Rightarrow> Inr (vs # vss)))"

text \<open>
  \<open>masked_fill_((1. - masks).byte().unsqueeze(-1), 0.)\<close>: where \<open>1 - mask\<close> is not
  zero, every component of the vector becomes zero. The masks only ever hold 0 and 1.
\<close>

definition masked_fill_row :: "'a::zero list list \<Rightarrow> int list \<Rightarrow> 'a list list" where
  "masked_fill_row vs ms = map (\<lambda>(v, m). if 1 - m \<noteq> 0 then map (\<lambda>_. 0) v else v) (zip vs ms)"

definition masked_fill :: "'a::zero list list list \<Rightarrow> int list list \<Rightarrow> 'a list list list" where
  "masked_fill vss mss = map (\<lambda>(vs, ms). masked_fill_row vs ms) (zip vss mss)"

definition unpack_batch_encoding ::
  "'a::zero list list \<Rightarrow> abstract_syntax_tree list \<Rightarrow> node_map \<Rightarrow> error + 'a unpacked" where
  "unpack_batch_encoding flattened_node_encodings batch_syntax_trees example_node2batch_node_map =
     (case max_node_num batch_syntax_trees of
        Inl e \<Rightarrow> Inl e
      | Inr n \<Rightarrow>
          (case index_rows n 0 batch_syntax_trees example_node2batch_node_map of
             Inl e \<Rightarrow> Inl e
           | Inr (index, masks) \<Rightarrow>
               (case gather flattened_node_encodings index of
                  Inl e \<Rightarrow> Inl e
                | Inr batch_node_encoding \<Rightarrow>
                    Inr \<lparr>batch_tree_node_encoding = masked_fill batch_node_encoding masks,
                         batch_tree_node_masks = masks\<rparr>)))"

section \<open>The forward pass\<close>

text \<open>
  \<open>forward\<close> returns its result together with the list of calls it made to the graph
  neural network, each call given by its arguments.
\<close>

definition forward ::
  "'a::zero encoder \<Rightarrow> abstract_syntax_tree list
     \<Rightarrow> ('a list list \<times> AdjacencyList list) list \<times> (error + 'a unpacked)" where
  "forward enc asts =
     (case get_batched_adjacency_lists asts of
        Inl e \<Rightarrow> ([], Inl e)
      | Inr (adj_lists, tree_node2batch, batch_graph_node2tree_node) \<Rightarrow>
          (case get_batched_tree_init_encoding enc asts tree_node2batch
                  batch_graph_node2tree_node of
             Inl e \<Rightarrow> ([], Inl e)
           | Inr tree_node_init_encoding \<Rightarrow>
               (case gnn enc tree_node_init_encoding adj_lists of
                  Inl e \<Rightarrow> ([(tree_node_init_encoding, adj_lists)], Inl e)
                | Inr tree_node_encoding \<Rightarrow>
                    ([(tree_node_init_encoding, adj_lists)],
                     unpack_batch_encoding tree_node_encoding asts tree_node2batch))))"

section \<open>Specification-level notions\<close>

text \<open>
  The keys the edge loop looks up, in the order it meets them: both endpoints of every
  edge of a tree, and these for every tree of the batch in order.
\<close>

definition edge_keys :: "nat \<Rightarrow> (syntax_node \<times> syntax_node) list \<Rightarrow> tree_node list" where
  "edge_keys ast_id es = concat (map (\<lambda>(p, c). [(ast_id, node_id p), (ast_id, node_id c)]) es)"

definition endpoints :: "abstract_syntax_tree list \<Rightarrow> tree_node list" where
  "endpoints asts = concat (map (\<lambda>(i, t). edge_keys i (adjacency_list t)) (enumerate 0 asts))"

fun assign_keys :: "node_map \<Rightarrow> tree_node list \<Rightarrow> node_map" where
  "assign_keys m [] = m"
| "assign_keys m (k # ks) = assign_keys (snd (setdefault m k (length m))) ks"

fun first_encounter :: "tree_node list \<Rightarrow> node_map \<Rightarrow> nat \<Rightarrow> node_map" where
  "first_encounter [] m next_id = m"
| "first_encounter (k # ks) m next_id =
     (if k \<in> fst ` set m then first_encounter ks m next_id
      else first_encounter ks (m @ [(k, next_id)]) (Suc next_id))"

text \<open>A small batch: a tree with a root, two terminal children and one terminal pair,
  and a tree of a single node.\<close>

definition example_root :: syntax_node where
  "example_root = \<lparr>node_id = 0, is_variable_node = False, var_id = [], node_type = ''block''\<rparr>"

definition example_x :: syntax_node where
  "example_x = \<lparr>node_id = 1, is_variable_node = True, var_id = ''x'', node_type = ''var''\<rparr>"

definition example_y :: syntax_node where
  "example_y = \<lparr>node_id = 2, is_variable_node = True, var_id = ''y'', node_type = ''var''\<rparr>"

definition example_tree :: abstract_syntax_tree where
  "example_tree = \<lparr>adjacency_list = [(example_root, example_x), (example_root, example_y)],
     adjacent_terminal_nodes = [(1, 2)],
     id_to_node = [(0, example_root), (1, example_x), (2, example_y)],
     tree_size = 3\<rparr>"

definition single_node_tree :: abstract_syntax_tree where
  "single_node_tree = \<lparr>adjacency_list = [], adjacent_terminal_nodes = [],
     id_to_node = [(0, example_root)], tree_size = 1\<rparr>"

definition example_map :: node_map where
  "example_map = [((0, 0), 0), ((0, 1), 1), ((0, 2), 2), ((2, 0), 3), ((2, 1), 4), ((2, 2), 5)]"

definition example_adj_lists :: "AdjacencyList list" where
  "example_adj_lists =
     [\<lparr>node_num = 6, adj_list = [(0, 1), (0, 2), (3, 4), (3, 5)]\<rparr>,
      \<lparr>node_num = 6, adj_list = [(1, 0), (2, 0), (4, 3), (5, 3)]\<rparr>,
      \<lparr>node_num = 6, adj_list = [(1, 2), (4, 5)]\<rparr>,
      \<lparr>node_num = 6, adj_list = [(2, 1), (5, 4)]\<rparr>]"

definition example_rev_map :: "(nat \<times> tree_node) list" where
  "example_rev_map = [(0, (0, 0)), (1, (0, 1)), (2, (0, 2)), (3, (2, 0)), (4, (2, 1)), (5, (2, 2))]"

text \<open>The pairs of local ids of a tree's edges: all that the edge loop reads of a node.\<close>

definition edge_ids :: "abstract_syntax_tree \<Rightarrow> (int \<times> int) list" where
  "edge_ids t = map (\<lambda>(p, c). (node_id p, node_id c)) (adjacency_list t)"

text \<open>
  The spec's reading of the second dimension in unpacking: the largest node count among
  the trees that have a node in the dict, a tree without one counting 0.
\<close>

definition spec_max_tree_size :: "abstract_syntax_tree list \<Rightarrow> node_map \<Rightarrow> nat" where
  "spec_max_tree_size trees m =
     fold max
       (map (\<lambda>(i, t). if \<exists>k \<in> set (map fst m). fst k = i then tree_size t else 0)
          (enumerate 0 trees)) 0"

text \<open>
  An encoder for the small batch: two variable names, one syntax type, a three-row
  embedding, and a network that returns its input; and a second one that differs in the
  embedding and the network only.
\<close>

definition echo_gnn :: "int list list \<Rightarrow> AdjacencyList list \<Rightarrow> error + int list list" where
  "echo_gnn initial_node_representation adjacency_lists = Inr initial_node_representation"

definition example_encoder :: "int encoder" where
  "example_encoder = \<lparr>vocab_source = [''x'' \<mapsto> 0, ''y'' \<mapsto> 1], vocab_source_len = 2,
     syntax_type_to_id = [''block'' \<mapsto> 0],
     src_node_embedding = [[10, 11], [20, 21], [30, 31]],
     gnn = echo_gnn\<rparr>"

definition other_encoder :: "int encoder" where
  "other_encoder = \<lparr>vocab_source = [''x'' \<mapsto> 0, ''y'' \<mapsto> 1], vocab_source_len = 2,
     syntax_type_to_id = [''block'' \<mapsto> 0],
     src_node_embedding = [],
     gnn = (\<lambda>initial_node_representation adjacency_lists. Inl EngineError)\<rparr>"

text \<open>The first tree again, with other payloads on the nodes of its edge list and
  another size.\<close>

definition relabelled_tree :: abstract_syntax_tree where
  "relabelled_tree = \<lparr>adjacency_list =
       [(example_root\<lparr>node_type := ''stmt''\<rparr>, example_x\<lparr>var_id := ''z''\<rparr>),
        (example_root, example_y)],
     adjacent_terminal_nodes = [(1, 2)],
     id_to_node = [(0, example_root), (1, example_x), (2, example_y)],
     tree_size = 7\<rparr>"

text \<open>Node vectors for three batch nodes, and what unpacking makes of them.\<close>

definition example_flat :: "int list list" where
  "example_flat = [[1, 2], [3, 4], [5, 6]]"

definition example_unpacked :: "int unpacked" where
  "example_unpacked =
     \<lparr>batch_tree_node_encoding = [[[1, 2], [3, 4], [5, 6]], [[0, 0], [0, 0], [0, 0]]],
      batch_tree_node_masks = [[1, 1, 1], [0, 0, 0]]\<rparr>"

text \<open>
  The constraint on the trees of a batch: a tree without edges has exactly one node, and
  a tree with edges has at least one.
\<close>

definition edge_list_constraint :: "abstract_syntax_tree \<Rightarrow> bool" where
  "edge_list_constraint t \<longleftrightarrow>
     (if adjacency_list t = [] then tree_size t = 1 else 1 \<le> tree_size t)"

text \<open>The graph of the batch made of the first tree and the single-node tree, and the
  result of the forward pass on it.\<close>

definition small_map :: node_map where
  "small_map = [((0, 0), 0), ((0, 1), 1), ((0, 2), 2)]"

definition small_adj_lists :: "AdjacencyList list" where
  "small_adj_lists =
     [\<lparr>node_num = 3, adj_list = [(0, 1), (0, 2)]\<rparr>,
      \<lparr>node_num = 3, adj_list = [(1, 0), (2, 0)]\<rparr>,
      \<lparr>node_num = 3, adj_list = [(1, 2)]\<rparr>,
      \<lparr>node_num = 3, adj_list = [(2, 1)]\<rparr>]"

definition small_unpacked :: "int unpacked" where
  "small_unpacked =
     \<lparr>batch_tree_node_encoding = [[[30, 31], [10, 11], [20, 21]], [[0, 0], [0, 0], [0, 0]]],
      batch_tree_node_masks = [[1, 1, 1], [0, 0, 0]]\<rparr>"

section \<open>The loops, one field at a time\<close>

lemma assign_keys_append: "assign_keys m (xs @ ys) = assign_keys (assign_keys m xs) ys"
  by (induction xs arbitrary: m) auto

lemma add_tree_edges_map:
  "tree_node2batch_graph_node (add_tree_edges i es st)
     = assign_keys (tree_node2batch_graph_node st) (edge_keys i es)"
proof (induction es arbitrary: st)
  case Nil
  show ?case by (simp add: edge_keys_def)
next
  case (Cons e es)
  obtain p c where e: "e = (p, c)" by (cases e)
  show ?case
    by (simp add: e Cons.IH edge_keys_def Let_def split: prod.splits)
qed

lemma add_tree_edges_terminal:
  "terminal_nodes_adj_list (add_tree_edges i es st) = terminal_nodes_adj_list st
   \<and> reversed_terminal_nodes_adj_list (add_tree_edges i es st) = reversed_terminal_nodes_adj_list st"
proof (induction es arbitrary: st)
  case Nil
  show ?case by simp
next
  case (Cons e es)
  obtain p c where e: "e = (p, c)" by (cases e)
  show ?case
    by (simp add: e Cons.IH Let_def split: prod.splits)
qed

lemma add_tree_edges_sym:
  "reversed_ast_adj_list st = map prod.swap (ast_adj_list st) \<Longrightarrow>
   reversed_ast_adj_list (add_tree_edges i es st) = map prod.swap (ast_adj_list (add_tree_edges i es st))"
proof (induction es arbitrary: st)
  case Nil
  then show ?case by simp
next
  case (Cons e es)
  obtain p c where e: "e = (p, c)" by (cases e)
  show ?case
    by (simp add: e Cons.prems Cons.IH Let_def split: prod.splits)
qed

lemma add_terminal_edges_keeps:
  "add_terminal_edges i ps st = Inr st' \<Longrightarrow>
   tree_node2batch_graph_node st' = tree_node2batch_graph_node st
   \<and> ast_adj_list st' = ast_adj_list st
   \<and> reversed_ast_adj_list st' = reversed_ast_adj_list st"
proof (induction ps arbitrary: st)
  case Nil
  then show ?case by simp
next
  case (Cons e ps)
  obtain a b where e: "e = (a, b)" by (cases e)
  from Cons.prems show ?case
    by (auto simp: e split: option.splits dest!: Cons.IH)
qed

lemma add_terminal_edges_sym:
  "add_terminal_edges i ps st = Inr st' \<Longrightarrow>
   reversed_terminal_nodes_adj_list st = map prod.swap (terminal_nodes_adj_list st) \<Longrightarrow>
   reversed_terminal_nodes_adj_list st' = map prod.swap (terminal_nodes_adj_list st')"
proof (induction ps arbitrary: st)
  case Nil
  then show ?case by simp
next
  case (Cons e ps)
  obtain a b where e: "e = (a, b)" by (cases e)
  from Cons.prems show ?case
    by (auto simp: e split: option.splits intro!: Cons.IH)
qed


lemma endpoints_from:
  "concat (map (\<lambda>(i, t). edge_keys i (adjacency_list t)) (enumerate n (t # ts)))
   = edge_keys n (adjacency_list t)
     @ concat (map (\<lambda>(i, t). edge_keys i (adjacency_list t)) (enumerate (Suc n) ts))"
  by simp

lemma add_asts_map:
  "add_asts n asts st = Inr st' \<Longrightarrow>
   tree_node2batch_graph_node st'
     = assign_keys (tree_node2batch_graph_node st)
         (concat (map (\<lambda>(i, t). edge_keys i (adjacency_list t)) (enumerate n asts)))"
proof (induction asts arbitrary: n st)
  case Nil
  then show ?case by simp
next
  case (Cons t ts)
  from Cons.prems obtain st1 where
    s1: "add_terminal_edges n (adjacent_terminal_nodes t) (add_tree_edges n (adjacency_list t) st) = Inr st1"
    and s2: "add_asts (Suc n) ts st1 = Inr st'"
    by (auto split: sum.splits)
  have "tree_node2batch_graph_node st1
          = assign_keys (tree_node2batch_graph_node st) (edge_keys n (adjacency_list t))"
    using add_terminal_edges_keeps[OF s1] by (simp add: add_tree_edges_map)
  with Cons.IH[OF s2] show ?case
    by (simp add: assign_keys_append)
qed

lemma add_asts_sym:
  "add_asts n asts st = Inr st' \<Longrightarrow>
   reversed_ast_adj_list st = map prod.swap (ast_adj_list st) \<Longrightarrow>
   reversed_terminal_nodes_adj_list st = map prod.swap (terminal_nodes_adj_list st) \<Longrightarrow>
   reversed_ast_adj_list st' = map prod.swap (ast_adj_list st')
   \<and> reversed_terminal_nodes_adj_list st' = map prod.swap (terminal_nodes_adj_list st')"
proof (induction asts arbitrary: n st)
  case Nil
  then show ?case by simp
next
  case (Cons t ts)
  from Cons.prems(1) obtain st1 where
    s1: "add_terminal_edges n (adjacent_terminal_nodes t) (add_tree_edges n (adjacency_list t) st) = Inr st1"
    and s2: "add_asts (Suc n) ts st1 = Inr st'"
    by (auto split: sum.splits)
  have a: "reversed_ast_adj_list st1 = map prod.swap (ast_adj_list st1)"
    using add_terminal_edges_keeps[OF s1] add_tree_edges_sym[OF Cons.prems(2)] by simp
  have b: "reversed_terminal_nodes_adj_list st1 = map prod.swap (terminal_nodes_adj_list st1)"
    by (rule add_terminal_edges_sym[OF s1]) (simp add: add_tree_edges_terminal Cons.prems(3))
  show ?case by (rule Cons.IH[OF s2 a b])
qed

lemma count_list_swap: "count_list (map prod.swap xs) (v, u) = count_list xs (u, v)"
  by (induction xs) auto

text \<open>
  C3. Whenever the batch graph is built, the reverse-tree relation is the forward-tree
  relation with every pair swapped, so \<open>(u, v)\<close> occurs in the one as often as \<open>(v, u)\<close>
  in the other; the same holds between the two chain relations when they are produced.
\<close>

theorem reverse_pair_symmetry:
  assumes "get_batched_adjacency_lists asts = Inr (adj_lists, m, rev_m)"
  shows "2 \<le> length adj_lists
    \<and> adj_list (adj_lists ! 1) = map prod.swap (adj_list (adj_lists ! 0))
    \<and> count_list (adj_list (adj_lists ! 0)) (u, v) = count_list (adj_list (adj_lists ! 1)) (v, u)
    \<and> (2 < length adj_lists \<longrightarrow> length adj_lists = 4
          \<and> adj_list (adj_lists ! 3) = map prod.swap (adj_list (adj_lists ! 2))
          \<and> count_list (adj_list (adj_lists ! 2)) (u, v)
              = count_list (adj_list (adj_lists ! 3)) (v, u))"
proof -
  from assms obtain st where st: "add_asts 0 asts empty_state = Inr st"
    by (auto simp: get_batched_adjacency_lists_def split: sum.splits)
  have sym: "reversed_ast_adj_list st = map prod.swap (ast_adj_list st)"
    "reversed_terminal_nodes_adj_list st = map prod.swap (terminal_nodes_adj_list st)"
    using add_asts_sym[OF st] by (simp_all add: empty_state_def)
  from assms st show ?thesis
    by (auto simp: get_batched_adjacency_lists_def Let_def sym count_list_swap split: if_splits)
qed

lemma example_batch_graph:
  "get_batched_adjacency_lists [example_tree, single_node_tree, example_tree]
     = Inr (example_adj_lists, example_map, example_rev_map)"
  by (simp add: get_batched_adjacency_lists_def empty_state_def setdefault_def ordered_dict_def
      example_tree_def single_node_tree_def example_root_def example_x_def example_y_def
      example_map_def example_adj_lists_def example_rev_map_def Let_def)

theorem reverse_pair_symmetry_witness:
  "get_batched_adjacency_lists [example_tree, single_node_tree, example_tree]
     = Inr (example_adj_lists, example_map, example_rev_map)
   \<and> count_list (adj_list (example_adj_lists ! 0)) (3, 4) = 1
   \<and> count_list (adj_list (example_adj_lists ! 1)) (4, 3) = 1
   \<and> adj_list (example_adj_lists ! 3) = map prod.swap (adj_list (example_adj_lists ! 2))"
  using reverse_pair_symmetry [OF example_batch_graph, of 3 4] example_batch_graph
  by (simp add: example_adj_lists_def)

section \<open>The dict of batch ids\<close>

lemma setdefault_new: "map_of m k = None \<Longrightarrow> setdefault m k v = (v, m @ [(k, v)])"
  by (simp add: setdefault_def)

lemma setdefault_old: "map_of m k = Some w \<Longrightarrow> setdefault m k v = (w, m)"
  by (simp add: setdefault_def)

lemma assign_keys_first_encounter: "assign_keys m ks = first_encounter ks m (length m)"
proof (induction ks arbitrary: m)
  case Nil
  show ?case by simp
next
  case (Cons k ks)
  show ?case
  proof (cases "map_of m k")
    case None
    then have "k \<notin> fst ` set m" by (simp add: map_of_eq_None_iff)
    with None show ?thesis by (simp add: setdefault_new Cons.IH)
  next
    case (Some w)
    then have "k \<in> fst ` set m" by (force dest: map_of_SomeD)
    with Some show ?thesis by (simp add: setdefault_old Cons.IH)
  qed
qed

lemma assign_keys_values:
  "map snd m = [0..<length m] \<Longrightarrow> map snd (assign_keys m ks) = [0..<length (assign_keys m ks)]"
proof (induction ks arbitrary: m)
  case Nil
  then show ?case by simp
next
  case (Cons k ks)
  show ?case
  proof (cases "map_of m k")
    case None
    have "map snd (m @ [(k, length m)]) = [0..<length (m @ [(k, length m)])]"
      using Cons.prems by simp
    from Cons.IH[OF this] None show ?thesis by (simp add: setdefault_new)
  next
    case (Some w)
    with Cons.IH[OF Cons.prems] show ?thesis by (simp add: setdefault_old)
  qed
qed

lemma assign_keys_keys:
  "fst ` set (assign_keys m ks) = fst ` set m \<union> set ks"
proof (induction ks arbitrary: m)
  case Nil
  show ?case by simp
next
  case (Cons k ks)
  show ?case
  proof (cases "map_of m k")
    case None
    then show ?thesis by (simp add: setdefault_new Cons.IH)
  next
    case (Some w)
    then have "k \<in> fst ` set m" by (force dest: map_of_SomeD)
    with Some show ?thesis by (auto simp add: setdefault_old Cons.IH)
  qed
qed

lemma assign_keys_distinct:
  "distinct (map fst m) \<Longrightarrow> distinct (map fst (assign_keys m ks))"
proof (induction ks arbitrary: m)
  case Nil
  then show ?case by simp
next
  case (Cons k ks)
  show ?case
  proof (cases "map_of m k")
    case None
    then have "k \<notin> fst ` set m" by (simp add: map_of_eq_None_iff)
    with Cons.prems have "distinct (map fst (m @ [(k, length m)]))" by simp
    from Cons.IH[OF this] None show ?thesis by (simp add: setdefault_new)
  next
    case (Some w)
    with Cons.IH[OF Cons.prems] show ?thesis by (simp add: setdefault_old)
  qed
qed

lemma assign_keys_sorted:
  "sorted (map fst (map fst m) @ map fst ks) \<Longrightarrow> sorted (map fst (map fst (assign_keys m ks)))"
proof (induction ks arbitrary: m)
  case Nil
  then show ?case by simp
next
  case (Cons k ks)
  show ?case
  proof (cases "map_of m k")
    case None
    from Cons.prems have "sorted (map fst (map fst (m @ [(k, length m)])) @ map fst ks)" by simp
    from Cons.IH[OF this] None show ?thesis by (simp add: setdefault_new)
  next
    case (Some w)
    from Cons.prems have "sorted (map fst (map fst m) @ map fst ks)"
      by (auto simp: sorted_append)
    from Cons.IH[OF this] Some show ?thesis by (simp add: setdefault_old)
  qed
qed

lemma edge_keys_fst: "set (map fst (edge_keys i es)) \<subseteq> {i}"
  by (induction es) (auto simp: edge_keys_def)

lemma endpoints_sorted:
  "sorted (map fst (concat (map (\<lambda>(i, t). edge_keys i (adjacency_list t)) (enumerate n asts))))
   \<and> (\<forall>k \<in> set (concat (map (\<lambda>(i, t). edge_keys i (adjacency_list t)) (enumerate n asts))). n \<le> fst k)"
proof (induction asts arbitrary: n)
  case Nil
  show ?case by simp
next
  case (Cons t ts)
  have a: "\<forall>x \<in> set (map fst (edge_keys n (adjacency_list t))). x = n"
    using edge_keys_fst[of n "adjacency_list t"] by auto
  then have "sorted (map fst (edge_keys n (adjacency_list t)))"
    by (simp add: sorted_wrt_iff_nth_less)
  with Cons.IH[of "Suc n"] a show ?case
    by (fastforce simp: sorted_append)
qed

lemma ordered_dict_distinct_aux:
  "distinct (map fst (d @ ps)) \<Longrightarrow> fold (\<lambda>(k, v) d. dict_set d k v) ps d = d @ ps"
proof (induction ps arbitrary: d)
  case Nil
  show ?case by simp
next
  case (Cons p ps)
  obtain k v where p: "p = (k, v)" by (cases p)
  have new: "k \<notin> fst ` set d \<Longrightarrow> dict_set d k v = d @ [(k, v)]" for d :: "('a \<times> 'b) list"
    by (induction d) auto
  from Cons.prems have "k \<notin> fst ` set d" by (auto simp: p)
  then have "dict_set d k v = d @ [(k, v)]" by (rule new)
  moreover from Cons.prems have "distinct (map fst ((d @ [(k, v)]) @ ps))" by (simp add: p)
  ultimately show ?case using Cons.IH[of "d @ [(k, v)]"] by (simp add: p)
qed

lemma ordered_dict_distinct: "distinct (map fst ps) \<Longrightarrow> ordered_dict ps = ps"
  using ordered_dict_distinct_aux[of "[]" ps] by (simp add: ordered_dict_def)

lemma map_of_index:
  assumes "distinct (map fst m)" and "map snd m = [0..<length m]"
  shows "map_of m k = Some x \<longleftrightarrow> x < length m \<and> fst (m ! x) = k"
proof
  assume "map_of m k = Some x"
  then have "(k, x) \<in> set m" by (rule map_of_SomeD)
  then obtain p where p: "p < length m" "m ! p = (k, x)" by (auto simp: in_set_conv_nth)
  have "snd (m ! p) = map snd m ! p" using p(1) by simp
  also have "\<dots> = p" using p(1) assms(2) by simp
  finally have "x = p" using p(2) by simp
  with p show "x < length m \<and> fst (m ! x) = k" by simp
next
  assume a: "x < length m \<and> fst (m ! x) = k"
  then have "snd (m ! x) = map snd m ! x" by simp
  also have "\<dots> = x" using a assms(2) by simp
  finally have "m ! x = (k, x)" using a by (metis prod.collapse)
  then have "(k, x) \<in> set m" using a by (metis nth_mem)
  with assms(1) show "map_of m k = Some x" by (rule map_of_is_SomeI)
qed

lemma convex_nat_interval:
  fixes S :: "nat set"
  assumes "finite S" and "\<And>a b c. a \<in> S \<Longrightarrow> c \<in> S \<Longrightarrow> a \<le> b \<Longrightarrow> b \<le> c \<Longrightarrow> b \<in> S"
  shows "\<exists>lo hi. S = {lo..<hi}"
proof (cases "S = {}")
  case True
  then have "S = {0..<0}" by simp
  then show ?thesis by blast
next
  case False
  have "S = {Min S..<Suc (Max S)}"
  proof (rule set_eqI)
    fix b
    show "b \<in> S \<longleftrightarrow> b \<in> {Min S..<Suc (Max S)}"
    proof
      assume "b \<in> S"
      then show "b \<in> {Min S..<Suc (Max S)}" using assms(1) by (simp add: less_Suc_eq_le)
    next
      assume "b \<in> {Min S..<Suc (Max S)}"
      then have "Min S \<le> b" "b \<le> Max S" by simp_all
      moreover have "Min S \<in> S" "Max S \<in> S" using assms(1) False by simp_all
      ultimately show "b \<in> S" using assms(2) by blast
    qed
  qed
  then show ?thesis by blast
qed

lemma graph_build:
  assumes "get_batched_adjacency_lists asts = Inr (adj_lists, m, rev_m)"
  shows "m = assign_keys [] (endpoints asts)"
    and "distinct (map fst m)"
    and "map snd m = [0..<length m]"
    and "rev_m = map (\<lambda>(k, v). (v, k)) m"
    and "\<forall>a \<in> set adj_lists. node_num a = length m"
proof -
  from assms obtain st where st: "add_asts 0 asts empty_state = Inr st"
    by (auto simp: get_batched_adjacency_lists_def split: sum.splits)
  from assms st have m: "m = tree_node2batch_graph_node st"
    by (simp add: get_batched_adjacency_lists_def Let_def)
  show 1: "m = assign_keys [] (endpoints asts)"
    using add_asts_map[OF st] by (simp add: m endpoints_def empty_state_def)
  show 2: "distinct (map fst m)"
    unfolding 1 by (rule assign_keys_distinct) simp
  show 3: "map snd m = [0..<length m]"
    unfolding 1 by (rule assign_keys_values) simp
  have "map fst (map (\<lambda>(k, v). (v, k)) m) = map snd m"
    by (simp add: case_prod_unfold)
  then have "distinct (map fst (map (\<lambda>(k, v). (v, k)) m))"
    using 3 by simp
  then have "ordered_dict (map (\<lambda>(k, v). (v, k)) m) = map (\<lambda>(k, v). (v, k)) m"
    by (rule ordered_dict_distinct)
  with assms st show "rev_m = map (\<lambda>(k, v). (v, k)) m"
    by (simp add: get_batched_adjacency_lists_def Let_def m)
  from assms st show "\<forall>a \<in> set adj_lists. node_num a = length m"
    by (auto simp: get_batched_adjacency_lists_def Let_def m split: if_splits)
qed

text \<open>
  C2. The dict built by \<open>get_batched_adjacency_lists\<close> is the one obtained by walking
  the edge endpoints of the batch in order (trees in batch order, edges in list order) with
  a single counter that starts at 0 and is never reset: an endpoint not yet present gets
  the counter's value, which is then incremented. The ids, in insertion order, are
  \<open>0, 1, 2, \<dots>\<close>.
\<close>

theorem first_encounter_order:
  assumes "get_batched_adjacency_lists asts = Inr (adj_lists, m, rev_m)"
  shows "m = first_encounter (endpoints asts) [] 0 \<and> map snd m = [0..<length m]"
  using graph_build(1,3)[OF assms] by (simp add: assign_keys_first_encounter)

text \<open>
  C1. The dict's keys are exactly the (tree index, local id) pairs that are endpoints of
  edges in the batch; it is injective on them; its values are exactly the interval from 0
  up to the number of distinct such pairs, which is the node count handed to every
  relation; and the reverse dict is its inverse.
\<close>

theorem mapping_bijection:
  assumes "get_batched_adjacency_lists asts = Inr (adj_lists, m, rev_m)"
  shows "dom (map_of m) = set (endpoints asts)
    \<and> inj_on (map_of m) (set (endpoints asts))
    \<and> ran (map_of m) = {0..<card (set (endpoints asts))}
    \<and> (\<forall>a \<in> set adj_lists. node_num a = card (set (endpoints asts)))
    \<and> (\<forall>k c. map_of rev_m c = Some k \<longleftrightarrow> map_of m k = Some c)"
proof -
  note g = graph_build[OF assms]
  have keys: "fst ` set m = set (endpoints asts)"
    unfolding g(1) by (simp add: assign_keys_keys)
  have dom: "dom (map_of m) = set (endpoints asts)"
    using keys by (simp add: dom_map_of_conv_image_fst)
  have "card (set (map fst m)) = length (map fst m)"
    using g(2) by (rule distinct_card)
  then have card: "card (set (endpoints asts)) = length m"
    using keys by simp
  have "ran (map_of m) = snd ` set m" using g(2) by (rule ran_distinct)
  also have "\<dots> = set (map snd m)" by simp
  also have "\<dots> = {0..<length m}" unfolding g(3) by simp
  finally have ran: "ran (map_of m) = {0..<card (set (endpoints asts))}" by (simp add: card)
  have inj: "inj_on (map_of m) (set (endpoints asts))"
  proof (rule inj_onI)
    fix k k'
    assume "k \<in> set (endpoints asts)" "k' \<in> set (endpoints asts)" and eq: "map_of m k = map_of m k'"
    then obtain x where x: "map_of m k = Some x" using dom by blast
    with eq have x': "map_of m k' = Some x" by simp
    from x x' show "k = k'" by (simp add: map_of_index[OF g(2,3)])
  qed
  have rev: "map_of rev_m c = Some k \<longleftrightarrow> map_of m k = Some c" for k c
  proof -
    have d: "distinct (map fst rev_m)"
      unfolding g(4) using g(3) by (simp add: case_prod_unfold comp_def)
    have "map_of rev_m c = Some k \<longleftrightarrow> (c, k) \<in> set rev_m"
      using d by (auto dest: map_of_SomeD intro: map_of_is_SomeI)
    also have "\<dots> \<longleftrightarrow> (k, c) \<in> set m" unfolding g(4) by auto
    also have "\<dots> \<longleftrightarrow> map_of m k = Some c"
      using g(2) by (auto dest: map_of_SomeD intro: map_of_is_SomeI)
    finally show ?thesis .
  qed
  from dom inj ran g(5) card rev show ?thesis by simp
qed

text \<open>
  C10. Every batch id of an earlier tree is smaller than every batch id of a later tree,
  and the batch ids of one tree form an interval of consecutive integers.
\<close>

theorem tree_intervals_in_batch_order:
  assumes "get_batched_adjacency_lists asts = Inr (adj_lists, m, rev_m)"
  shows "(\<forall>i j a b x y. map_of m (i, a) = Some x \<longrightarrow> map_of m (j, b) = Some y \<longrightarrow> i < j \<longrightarrow> x < y)
    \<and> (\<forall>i. \<exists>lo hi. {x. \<exists>a. map_of m (i, a) = Some x} = {lo..<hi})"
proof -
  note g = graph_build[OF assms]
  note idx = map_of_index[OF g(2,3)]
  have "sorted (map fst (map fst m))"
    unfolding g(1) by (rule assign_keys_sorted) (use endpoints_sorted[of 0 asts] in \<open>simp add: endpoints_def\<close>)
  then have mono: "fst (fst (m ! p)) \<le> fst (fst (m ! q))" if "p \<le> q" "q < length m" for p q
    using that by (simp add: sorted_iff_nth_mono)
  have order: "x < y" if "map_of m (i, a) = Some x" "map_of m (j, b) = Some y" "i < j" for i j a b x y
  proof (rule ccontr)
    assume "\<not> x < y"
    then have "y \<le> x" by simp
    moreover from that(1) have "x < length m" "fst (m ! x) = (i, a)" by (simp_all add: idx)
    moreover from that(2) have "fst (m ! y) = (j, b)" by (simp add: idx)
    ultimately have "j \<le> i" using mono[of y x] by simp
    with that(3) show False by simp
  qed
  have interval: "\<exists>lo hi. {x. \<exists>a. map_of m (i, a) = Some x} = {lo..<hi}" for i
  proof (rule convex_nat_interval)
    have "{x. \<exists>a. map_of m (i, a) = Some x} \<subseteq> {0..<length m}" by (auto simp: idx)
    then show "finite {x. \<exists>a. map_of m (i, a) = Some x}" by (rule finite_subset) simp
  next
    fix x y z
    assume x: "x \<in> {x. \<exists>a. map_of m (i, a) = Some x}"
      and z: "z \<in> {x. \<exists>a. map_of m (i, a) = Some x}" and le: "x \<le> y" "y \<le> z"
    from x have tx: "fst (fst (m ! x)) = i" by (auto simp: idx)
    from z have tz: "fst (fst (m ! z)) = i" and lz: "z < length m" by (auto simp: idx)
    from le lz have ly: "y < length m" by simp
    have "fst (fst (m ! y)) = i"
      using mono[OF le(1) ly] mono[OF le(2) lz] tx tz by simp
    then have "map_of m (i, snd (fst (m ! y))) = Some y"
      using ly by (simp add: idx) (metis prod.collapse)
    then show "y \<in> {x. \<exists>a. map_of m (i, a) = Some x}" by blast
  qed
  from order interval show ?thesis by blast
qed




lemma single_batch_graph:
  "get_batched_adjacency_lists [single_node_tree]
     = Inr ([\<lparr>node_num = 0, adj_list = []\<rparr>, \<lparr>node_num = 0, adj_list = []\<rparr>], [], [])"
  by (simp add: get_batched_adjacency_lists_def empty_state_def ordered_dict_def
      single_node_tree_def Let_def)


theorem first_encounter_order_witness:
  "get_batched_adjacency_lists [example_tree, single_node_tree, example_tree]
     = Inr (example_adj_lists, example_map, example_rev_map)
   \<and> example_map = first_encounter (endpoints [example_tree, single_node_tree, example_tree]) [] 0
   \<and> map snd example_map = [0..<6]"
proof -
  from first_encounter_order [OF example_batch_graph]
  have a: "example_map = first_encounter (endpoints [example_tree, single_node_tree, example_tree]) [] 0"
    and b: "map snd example_map = [0..<length example_map]"
    by simp_all
  have "length example_map = 6" by (simp add: example_map_def)
  with b have "map snd example_map = [0..<6]" by simp
  with a example_batch_graph show ?thesis by blast
qed

theorem mapping_bijection_witness:
  "get_batched_adjacency_lists [example_tree, single_node_tree, example_tree]
     = Inr (example_adj_lists, example_map, example_rev_map)
   \<and> dom (map_of example_map) = set (endpoints [example_tree, single_node_tree, example_tree])
   \<and> ran (map_of example_map) = {0..<card (set (endpoints [example_tree, single_node_tree, example_tree]))}
   \<and> card (set (endpoints [example_tree, single_node_tree, example_tree])) = 6"
  using mapping_bijection [OF example_batch_graph] example_batch_graph
  by (simp add: example_adj_lists_def)

theorem tree_intervals_in_batch_order_witness:
  "get_batched_adjacency_lists [example_tree, single_node_tree, example_tree]
     = Inr (example_adj_lists, example_map, example_rev_map)
   \<and> map_of example_map (0, 2) = Some 2 \<and> map_of example_map (2, 0) = Some 3
   \<and> the (map_of example_map (0, 2)) < the (map_of example_map (2, 0))
   \<and> (\<exists>lo hi. {x. \<exists>a. map_of example_map (2, a) = Some x} = {lo..<hi})"
proof -
  note t = tree_intervals_in_batch_order [OF example_batch_graph]
  have a: "map_of example_map (0, 2) = Some 2" and b: "map_of example_map (2, 0) = Some 3"
    by (simp_all add: example_map_def)
  have "(2::nat) < 3" by (rule t[THEN conjunct1, rule_format, OF a b]) simp
  with t a b example_batch_graph show ?thesis by simp
qed

section \<open>Unpacking, initial indices and the forward pass\<close>

lemma index_row_length: "index_row n ids = Inr row \<Longrightarrow> length row = n"
  by (auto simp: index_row_def Let_def min_def split: if_splits)

lemma mask_row_length: "length (mask_row n ids) = n"
  by (simp add: mask_row_def)

lemma index_rows_shape:
  "index_rows n e ts m = Inr (index, masks) \<Longrightarrow>
   length index = length ts \<and> length masks = length ts
   \<and> (\<forall>row \<in> set index. length row = n) \<and> (\<forall>row \<in> set masks. length row = n)"
proof (induction ts arbitrary: e index masks)
  case Nil
  then show ?case by simp
next
  case (Cons t ts)
  from Cons.prems obtain row index' masks' where
    r: "index_row n (example_nodes_batch_id m e) = Inr row"
    and rest: "index_rows n (Suc e) ts m = Inr (index', masks')"
    and eq: "index = row # index'" "masks = mask_row n (example_nodes_batch_id m e) # masks'"
    by (auto split: sum.splits)
  from Cons.IH[OF rest] index_row_length[OF r] show ?case
    by (simp add: eq mask_row_length)
qed

lemma gather_row_nth:
  "gather_row flat row = Inr vs \<Longrightarrow>
   length vs = length row \<and> (\<forall>j < length row. vs ! j \<in> set flat)"
proof (induction row arbitrary: vs)
  case Nil
  then show ?case by simp
next
  case (Cons i row)
  from Cons.prems obtain vs' where i: "i < length flat"
    and rest: "gather_row flat row = Inr vs'" and eq: "vs = flat ! i # vs'"
    by (auto split: if_splits sum.splits)
  from Cons.IH[OF rest] i show ?case
    by (auto simp: eq nth_Cons split: nat.splits)
qed

lemma gather_nth:
  "gather flat index = Inr vss \<Longrightarrow>
   length vss = length index
   \<and> (\<forall>e < length index. length (vss ! e) = length (index ! e)
        \<and> (\<forall>j < length (index ! e). vss ! e ! j \<in> set flat))"
proof (induction index arbitrary: vss)
  case Nil
  then show ?case by simp
next
  case (Cons row index)
  from Cons.prems obtain vs vss' where r: "gather_row flat row = Inr vs"
    and rest: "gather flat index = Inr vss'" and eq: "vss = vs # vss'"
    by (auto split: sum.splits)
  from Cons.IH[OF rest] gather_row_nth[OF r] show ?case
    by (auto simp: eq nth_Cons split: nat.splits)
qed

lemma masked_fill_row_nth:
  "j < length vs \<Longrightarrow> j < length ms \<Longrightarrow>
   masked_fill_row vs ms ! j = (if 1 - ms ! j \<noteq> 0 then map (\<lambda>_. 0) (vs ! j) else vs ! j)"
  by (simp add: masked_fill_row_def)

lemma masked_fill_nth:
  "e < length vss \<Longrightarrow> e < length mss \<Longrightarrow>
   masked_fill vss mss ! e = masked_fill_row (vss ! e) (mss ! e)"
  by (simp add: masked_fill_def)

lemma unpack_parts:
  assumes "unpack_batch_encoding flat trees m = Inr r"
  obtains n index gathered where
    "max_node_num trees = Inr n"
    "index_rows n 0 trees m = Inr (index, batch_tree_node_masks r)"
    "gather flat index = Inr gathered"
    "batch_tree_node_encoding r = masked_fill gathered (batch_tree_node_masks r)"
  using assms by (auto simp: unpack_batch_encoding_def split: sum.splits prod.splits)

text \<open>
  C7. In every result of \<open>unpack_batch_encoding\<close> the encoding has the shape of the
  mask, and at every position where the mask is 0 the vector consists of zeros only,
  whatever the flattened encodings were; when all flattened vectors have width \<open>w\<close> it
  is the zero vector of width \<open>w\<close>.
\<close>

theorem zero_padding:
  assumes "unpack_batch_encoding flat trees m = Inr r"
  shows "length (batch_tree_node_encoding r) = length (batch_tree_node_masks r)
    \<and> (\<forall>e < length (batch_tree_node_masks r).
          length (batch_tree_node_encoding r ! e) = length (batch_tree_node_masks r ! e)
          \<and> (\<forall>j < length (batch_tree_node_masks r ! e).
                batch_tree_node_masks r ! e ! j = 0 \<longrightarrow>
                  set (batch_tree_node_encoding r ! e ! j) \<subseteq> {0}
                  \<and> (\<forall>w. (\<forall>v \<in> set flat. length v = w) \<longrightarrow>
                        batch_tree_node_encoding r ! e ! j = replicate w 0)))"
proof -
  from assms obtain n index gathered where
    rows: "index_rows n 0 trees m = Inr (index, batch_tree_node_masks r)"
    and g: "gather flat index = Inr gathered"
    and enc: "batch_tree_node_encoding r = masked_fill gathered (batch_tree_node_masks r)"
    by (rule unpack_parts)
  let ?masks = "batch_tree_node_masks r"
  note shape = index_rows_shape[OF rows]
  note gn = gather_nth[OF g]
  have len: "length gathered = length ?masks" using shape gn by simp
  have rowlen: "length (gathered ! e) = length (?masks ! e)" if "e < length ?masks" for e
  proof -
    from that shape have "length (index ! e) = n" "length (?masks ! e) = n" by simp_all
    with gn that shape show ?thesis by simp
  qed
  have 1: "length (batch_tree_node_encoding r) = length ?masks"
    using len by (simp add: enc masked_fill_def)
  have 2: "length (batch_tree_node_encoding r ! e) = length (?masks ! e)" if "e < length ?masks" for e
    using that len rowlen[OF that] by (simp add: enc masked_fill_nth masked_fill_row_def)
  have 3: "set (batch_tree_node_encoding r ! e ! j) \<subseteq> {0}
      \<and> (\<forall>w. (\<forall>v \<in> set flat. length v = w) \<longrightarrow> batch_tree_node_encoding r ! e ! j = replicate w 0)"
    if e: "e < length ?masks" and j: "j < length (?masks ! e)" and z: "?masks ! e ! j = 0" for e j
  proof -
    have "batch_tree_node_encoding r ! e ! j = map (\<lambda>_. 0) (gathered ! e ! j)"
      using e j z len rowlen[OF e] by (simp add: enc masked_fill_nth masked_fill_row_nth)
    moreover have "gathered ! e ! j \<in> set flat"
      using gn e j shape rowlen[OF e] by simp
    ultimately show ?thesis by (auto simp: map_replicate_const)
  qed
  from 1 2 3 show ?thesis by blast
qed

lemma example_unpack:
  "unpack_batch_encoding example_flat [example_tree, single_node_tree]
     [((0, 0), 0), ((0, 2), 2), ((0, 1), 1)] = Inr example_unpacked"
  by (simp add: unpack_batch_encoding_def max_node_num_def example_nodes_batch_id_def
      index_row_def mask_row_def masked_fill_def masked_fill_row_def example_flat_def
      example_unpacked_def example_tree_def single_node_tree_def Let_def eval_nat_numeral)

theorem zero_padding_witness:
  "unpack_batch_encoding example_flat [example_tree, single_node_tree]
     [((0, 0), 0), ((0, 2), 2), ((0, 1), 1)] = Inr example_unpacked
   \<and> batch_tree_node_masks example_unpacked ! 1 ! 2 = 0
   \<and> batch_tree_node_encoding example_unpacked ! 1 ! 2 = replicate 2 0"
proof -
  note t = zero_padding [OF example_unpack]
  have a: "1 < length (batch_tree_node_masks example_unpacked)"
    and b: "2 < length (batch_tree_node_masks example_unpacked ! 1)"
    and c: "batch_tree_node_masks example_unpacked ! 1 ! 2 = 0"
    and d: "\<forall>v \<in> set example_flat. length v = 2"
    by (simp_all add: example_unpacked_def example_flat_def)
  from t a b c d have "batch_tree_node_encoding example_unpacked ! 1 ! 2 = replicate 2 0"
    by blast
  with example_unpack c show ?thesis by simp
qed

lemma fold_max_size:
  "fold (\<lambda>tree acc. max acc (tree_size tree)) ts (tree_size t) = Max (tree_size ` set (t # ts))"
proof -
  have "fold (\<lambda>tree acc. max acc (tree_size tree)) ts a = fold max (map tree_size ts) a" for a
    by (induction ts arbitrary: a) (simp_all add: max.commute)
  then have "fold (\<lambda>tree acc. max acc (tree_size tree)) ts (tree_size t)
      = fold max (map tree_size ts) (tree_size t)" .
  also have "\<dots> = Max (set (tree_size t # map tree_size ts))"
    by (rule Max.set_eq_fold[symmetric])
  finally show ?thesis by simp
qed

lemma max_node_num_Max:
  "max_node_num trees = Inr n \<Longrightarrow> trees \<noteq> [] \<and> n = Max (tree_size ` set trees)"
  by (cases trees) (auto simp: max_node_num_def fold_max_size)

lemma unpack_row_length:
  assumes "unpack_batch_encoding flat trees m = Inr r"
  shows "trees \<noteq> []
    \<and> length (batch_tree_node_masks r) = length trees
    \<and> length (batch_tree_node_encoding r) = length trees
    \<and> (\<forall>row \<in> set (batch_tree_node_masks r). length row = Max (tree_size ` set trees))
    \<and> (\<forall>row \<in> set (batch_tree_node_encoding r). length row = Max (tree_size ` set trees))"
proof -
  from assms obtain n index gathered where
    n: "max_node_num trees = Inr n"
    and rows: "index_rows n 0 trees m = Inr (index, batch_tree_node_masks r)"
    and g: "gather flat index = Inr gathered"
    and enc: "batch_tree_node_encoding r = masked_fill gathered (batch_tree_node_masks r)"
    by (rule unpack_parts)
  note mx = max_node_num_Max[OF n]
  note shape = index_rows_shape[OF rows]
  note gn = gather_nth[OF g]
  have len: "length (batch_tree_node_encoding r) = length trees"
    using shape gn by (simp add: enc masked_fill_def)
  have "length row = n" if "row \<in> set (batch_tree_node_encoding r)" for row
  proof -
    from that obtain e where e: "e < length (batch_tree_node_encoding r)"
      and row: "row = batch_tree_node_encoding r ! e"
      by (auto simp: in_set_conv_nth)
    from e len shape have e': "e < length index" "e < length (batch_tree_node_masks r)"
      "e < length gathered" using gn by simp_all
    with shape have "length (index ! e) = n" "length (batch_tree_node_masks r ! e) = n" by simp_all
    with gn e' show ?thesis
      by (simp add: row enc masked_fill_nth masked_fill_row_def)
  qed
  with mx shape len show ?thesis by simp
qed

lemma empty_batch_graph:
  "get_batched_adjacency_lists []
     = Inr ([\<lparr>node_num = 0, adj_list = []\<rparr>, \<lparr>node_num = 0, adj_list = []\<rparr>], [], [])"
  by (simp add: get_batched_adjacency_lists_def empty_state_def ordered_dict_def Let_def)

text \<open>
  C9, as amended. On an empty batch \<open>forward\<close> calls the network exactly once, on no
  node vectors and two empty relations over zero nodes; it then fails with the network's
  error if the network fails, and otherwise with the \<open>ValueError\<close> of \<open>max()\<close> on
  the empty batch in unpacking. It never returns a result.
\<close>

theorem empty_batch_reaches_engine:
  "forward enc []
     = ([([], [\<lparr>node_num = 0, adj_list = []\<rparr>, \<lparr>node_num = 0, adj_list = []\<rparr>])],
        case gnn enc [] [\<lparr>node_num = 0, adj_list = []\<rparr>, \<lparr>node_num = 0, adj_list = []\<rparr>] of
          Inl e \<Rightarrow> Inl e
        | Inr tree_node_encoding \<Rightarrow> Inl ValueError)"
  by (simp add: forward_def empty_batch_graph get_batched_tree_init_encoding_def
      unpack_batch_encoding_def max_node_num_def split: sum.splits)

text \<open>
  C9 as stated fails: with a network that returns its input, \<open>forward\<close> on the empty
  batch has called the network once before it fails.
\<close>

theorem empty_batch_counterexample:
  "forward example_encoder []
     = ([([], [\<lparr>node_num = 0, adj_list = []\<rparr>, \<lparr>node_num = 0, adj_list = []\<rparr>])],
        Inl ValueError)
   \<and> length (fst (forward example_encoder [])) = 1"
  by (simp add: forward_def empty_batch_graph get_batched_tree_init_encoding_def
      unpack_batch_encoding_def max_node_num_def example_encoder_def echo_gnn_def)

lemma init_indices_nth:
  "init_indices enc asts items = Inr idxs \<Longrightarrow>
   length idxs = length items
   \<and> (\<forall>i < length items.
        fst (snd (items ! i)) < length asts
        \<and> (\<exists>node. map_of (id_to_node (asts ! fst (snd (items ! i)))) (snd (snd (items ! i))) = Some node
              \<and> (is_variable_node node \<longrightarrow> vocab_source enc (var_id node) = Some (idxs ! i))
              \<and> (\<not> is_variable_node node \<longrightarrow>
                    (\<exists>g. syntax_type_to_id enc (node_type node) = Some g
                         \<and> idxs ! i = g + int (vocab_source_len enc)))))"
proof (induction items arbitrary: idxs)
  case Nil
  then show ?case by simp
next
  case (Cons item items)
  obtain b t n where item: "item = (b, (t, n))" by (cases item) auto
  from Cons.prems obtain node idx idxs' where
    t: "t < length asts"
    and node: "map_of (id_to_node (asts ! t)) n = Some node"
    and idx: "(if is_variable_node node then vocab_source enc (var_id node)
               else map_option (\<lambda>g. g + int (vocab_source_len enc))
                      (syntax_type_to_id enc (node_type node))) = Some idx"
    and rest: "init_indices enc asts items = Inr idxs'"
    and eq: "idxs = idx # idxs'"
    by (auto simp: item split: if_splits option.splits sum.splits)
  note ih = Cons.IH[OF rest]
  have head: "\<exists>node. map_of (id_to_node (asts ! t)) n = Some node
      \<and> (is_variable_node node \<longrightarrow> vocab_source enc (var_id node) = Some idx)
      \<and> (\<not> is_variable_node node \<longrightarrow>
            (\<exists>g. syntax_type_to_id enc (node_type node) = Some g
                 \<and> idx = g + int (vocab_source_len enc)))"
    using node idx by (auto split: if_splits)
  show ?case
  proof (intro conjI allI impI)
    show "length idxs = length (item # items)" using ih by (simp add: eq)
  next
    fix i assume i: "i < length (item # items)"
    show "fst (snd ((item # items) ! i)) < length asts"
      using i ih t by (cases i) (simp_all add: item)
    show "\<exists>node. map_of (id_to_node (asts ! fst (snd ((item # items) ! i))))
                  (snd (snd ((item # items) ! i))) = Some node
      \<and> (is_variable_node node \<longrightarrow> vocab_source enc (var_id node) = Some (idxs ! i))
      \<and> (\<not> is_variable_node node \<longrightarrow>
            (\<exists>g. syntax_type_to_id enc (node_type node) = Some g
                 \<and> idxs ! i = g + int (vocab_source_len enc)))"
    proof (cases i)
      case 0
      with head show ?thesis by (simp add: item eq)
    next
      case (Suc i')
      with i ih show ?thesis by (simp add: eq)
    qed
  qed
qed

text \<open>
  C5. For every key of the dict, with batch id \<open>c\<close>, the node it names exists and
  \<open>indices[c]\<close> is the vocabulary index of the node's variable id if the node is a
  variable node, and the grammar index of its type plus the vocabulary's length
  otherwise. When the vocabulary's indices lie in \<open>[0, len)\<close> and the grammar's are not
  negative, variable nodes get indices below the vocabulary's length and the others
  indices from it upwards.
\<close>

theorem init_index_formula:
  assumes "get_batched_adjacency_lists asts = Inr (adj_lists, m, rev_m)"
    and "init_indices enc asts rev_m = Inr idxs"
    and "map_of m (t, n) = Some c"
  shows "length idxs = length m \<and> c < length idxs \<and> t < length asts
    \<and> (\<exists>node. map_of (id_to_node (asts ! t)) n = Some node
          \<and> (is_variable_node node \<longrightarrow> vocab_source enc (var_id node) = Some (idxs ! c))
          \<and> (\<not> is_variable_node node \<longrightarrow>
                (\<exists>g. syntax_type_to_id enc (node_type node) = Some g
                     \<and> idxs ! c = g + int (vocab_source_len enc)))
          \<and> ((\<forall>w i. vocab_source enc w = Some i \<longrightarrow> 0 \<le> i \<and> i < int (vocab_source_len enc))
               \<and> (\<forall>s g. syntax_type_to_id enc s = Some g \<longrightarrow> 0 \<le> g)
               \<longrightarrow> (is_variable_node node \<longrightarrow> 0 \<le> idxs ! c \<and> idxs ! c < int (vocab_source_len enc))
                 \<and> (\<not> is_variable_node node \<longrightarrow> int (vocab_source_len enc) \<le> idxs ! c)))"
proof -
  note g = graph_build[OF assms(1)]
  note ii = init_indices_nth[OF assms(2)]
  from assms(3) have c: "c < length m" and key: "fst (m ! c) = (t, n)"
    by (simp_all add: map_of_index[OF g(2,3)])
  have len: "length idxs = length m" using ii by (simp add: g(4))
  have item: "snd (rev_m ! c) = (t, n)"
    using c key by (simp add: g(4) case_prod_unfold)
  from ii c have "fst (snd (rev_m ! c)) < length asts
      \<and> (\<exists>node. map_of (id_to_node (asts ! fst (snd (rev_m ! c)))) (snd (snd (rev_m ! c))) = Some node
              \<and> (is_variable_node node \<longrightarrow> vocab_source enc (var_id node) = Some (idxs ! c))
              \<and> (\<not> is_variable_node node \<longrightarrow>
                    (\<exists>g. syntax_type_to_id enc (node_type node) = Some g
                         \<and> idxs ! c = g + int (vocab_source_len enc))))"
    by (simp add: g(4))
  then obtain node where t: "t < length asts"
    and node: "map_of (id_to_node (asts ! t)) n = Some node"
    and var: "is_variable_node node \<longrightarrow> vocab_source enc (var_id node) = Some (idxs ! c)"
    and syn: "\<not> is_variable_node node \<longrightarrow>
                (\<exists>g. syntax_type_to_id enc (node_type node) = Some g
                     \<and> idxs ! c = g + int (vocab_source_len enc))"
    by (auto simp: item)
  have ranges: "(is_variable_node node \<longrightarrow> 0 \<le> idxs ! c \<and> idxs ! c < int (vocab_source_len enc))
                 \<and> (\<not> is_variable_node node \<longrightarrow> int (vocab_source_len enc) \<le> idxs ! c)"
    if "\<forall>w i. vocab_source enc w = Some i \<longrightarrow> 0 \<le> i \<and> i < int (vocab_source_len enc)"
      and "\<forall>s g. syntax_type_to_id enc s = Some g \<longrightarrow> 0 \<le> g"
    using that var syn by fastforce
  from len c t node var syn ranges show ?thesis by auto
qed

lemma add_tree_edges_ids:
  "map (\<lambda>(p, c). (node_id p, node_id c)) es = map (\<lambda>(p, c). (node_id p, node_id c)) es' \<Longrightarrow>
   add_tree_edges i es st = add_tree_edges i es' st"
proof (induction es arbitrary: es' st)
  case Nil
  then show ?case by simp
next
  case (Cons e es)
  from Cons.prems obtain e' es'' where es': "es' = e' # es''" by (cases es') auto
  obtain p c where e: "e = (p, c)" by (cases e)
  obtain p' c' where e': "e' = (p', c')" by (cases e')
  from Cons.prems have ids: "node_id p = node_id p'" "node_id c = node_id c'"
    and rest: "map (\<lambda>(p, c). (node_id p, node_id c)) es = map (\<lambda>(p, c). (node_id p, node_id c)) es''"
    by (simp_all add: es' e e')
  show ?case
    by (simp add: es' e e' ids Cons.IH[OF rest])
qed

lemma add_asts_ids:
  "map edge_ids asts = map edge_ids asts' \<Longrightarrow>
   map adjacent_terminal_nodes asts = map adjacent_terminal_nodes asts' \<Longrightarrow>
   add_asts n asts st = add_asts n asts' st"
proof (induction asts arbitrary: asts' n st)
  case Nil
  then show ?case by simp
next
  case (Cons t ts)
  from Cons.prems(1) obtain t' ts' where asts': "asts' = t' # ts'" by (cases asts') auto
  from Cons.prems have a: "edge_ids t = edge_ids t'" "map edge_ids ts = map edge_ids ts'"
    and b: "adjacent_terminal_nodes t = adjacent_terminal_nodes t'"
      "map adjacent_terminal_nodes ts = map adjacent_terminal_nodes ts'"
    by (simp_all add: asts')
  have "add_tree_edges n (adjacency_list t) st = add_tree_edges n (adjacency_list t') st"
    using a(1) by (intro add_tree_edges_ids) (simp add: edge_ids_def)
  then show ?case
    by (simp add: asts' b(1) Cons.IH[OF a(2) b(2)] split: sum.splits)
qed

lemma init_indices_reads:
  assumes "map id_to_node asts = map id_to_node asts'"
    and "vocab_source enc = vocab_source enc'"
    and "vocab_source_len enc = vocab_source_len enc'"
    and "syntax_type_to_id enc = syntax_type_to_id enc'"
  shows "init_indices enc asts items = init_indices enc' asts' items"
proof (induction items)
  case Nil
  show ?case by simp
next
  case (Cons item items)
  obtain b t n where item: "item = (b, (t, n))" by (cases item) auto
  from assms(1) have len: "length asts = length asts'" by (rule map_eq_imp_length_eq)
  have "id_to_node (asts ! t) = id_to_node (asts' ! t)" if "t < length asts"
    using that assms(1) len by (metis nth_map)
  then show ?case
    using len by (simp add: item Cons.IH assms(2-4) split: option.splits sum.splits)
qed

text \<open>
  C8. The dict, the relations and the initial indices depend only on what the
  construction reads: the local ids along each tree's edge list, the adjacent-terminal
  pairs, the node tables, and the vocabulary and grammar. Two runs on batches that agree
  on these, in the same order, give the same results; nothing else (another field of a
  tree, the embedding, the network, an earlier call) has an influence.
\<close>

theorem two_run_determinism:
  assumes "map edge_ids asts = map edge_ids asts'"
    and "map adjacent_terminal_nodes asts = map adjacent_terminal_nodes asts'"
    and "map id_to_node asts = map id_to_node asts'"
    and "vocab_source enc = vocab_source enc'"
    and "vocab_source_len enc = vocab_source_len enc'"
    and "syntax_type_to_id enc = syntax_type_to_id enc'"
  shows "get_batched_adjacency_lists asts = get_batched_adjacency_lists asts'
    \<and> init_indices enc asts items = init_indices enc' asts' items"
  using add_asts_ids[OF assms(1,2)] init_indices_reads[OF assms(3-6)]
  by (simp add: get_batched_adjacency_lists_def)

lemma example_init_indices:
  "init_indices example_encoder [example_tree, single_node_tree, example_tree] example_rev_map
     = Inr [2, 0, 1, 2, 0, 1]"
  by (simp add: example_rev_map_def example_encoder_def example_tree_def single_node_tree_def
      example_root_def example_x_def example_y_def)

theorem init_index_formula_witness:
  "get_batched_adjacency_lists [example_tree, single_node_tree, example_tree]
     = Inr (example_adj_lists, example_map, example_rev_map)
   \<and> init_indices example_encoder [example_tree, single_node_tree, example_tree] example_rev_map
       = Inr [2, 0, 1, 2, 0, 1]
   \<and> map_of example_map (2, 1) = Some 4 \<and> map_of example_map (2, 0) = Some 3
   \<and> map_of (id_to_node ([example_tree, single_node_tree, example_tree] ! 2)) 1 = Some example_x
   \<and> map_of (id_to_node ([example_tree, single_node_tree, example_tree] ! 2)) 0 = Some example_root
   \<and> is_variable_node example_x \<and> \<not> is_variable_node example_root
   \<and> vocab_source example_encoder (var_id example_x) = Some ([2, 0, 1, 2, 0, 1] ! 4)
   \<and> [2, 0, 1, 2, 0, 1] ! 4 < int (vocab_source_len example_encoder)
   \<and> int (vocab_source_len example_encoder) \<le> [2, 0, 1, 2, 0, 1] ! 3"
proof -
  have ka: "map_of example_map (2, 1) = Some 4" and kb: "map_of example_map (2, 0) = Some 3"
    by (simp_all add: example_map_def)
  have na: "map_of (id_to_node ([example_tree, single_node_tree, example_tree] ! 2)) 1 = Some example_x"
    and nb: "map_of (id_to_node ([example_tree, single_node_tree, example_tree] ! 2)) 0 = Some example_root"
    by (simp_all add: example_tree_def)
  have va: "is_variable_node example_x" and vb: "\<not> is_variable_node example_root"
    by (simp_all add: example_x_def example_root_def)
  have wf: "(\<forall>w i. vocab_source example_encoder w = Some i \<longrightarrow>
               0 \<le> i \<and> i < int (vocab_source_len example_encoder))
            \<and> (\<forall>s g. syntax_type_to_id example_encoder s = Some g \<longrightarrow> 0 \<le> g)"
    by (auto simp: example_encoder_def split: if_splits)
  from init_index_formula [OF example_batch_graph example_init_indices ka] na va wf
  have a: "vocab_source example_encoder (var_id example_x) = Some ([2, 0, 1, 2, 0, 1] ! 4)
      \<and> [2, 0, 1, 2, 0, 1] ! 4 < int (vocab_source_len example_encoder)"
    by auto
  from init_index_formula [OF example_batch_graph example_init_indices kb] nb vb wf
  have b: "int (vocab_source_len example_encoder) \<le> [2, 0, 1, 2, 0, 1] ! 3"
    by auto
  from example_batch_graph example_init_indices ka kb na nb va vb a b show ?thesis
    by blast
qed

theorem two_run_determinism_witness:
  "example_tree \<noteq> relabelled_tree
   \<and> map edge_ids [example_tree, single_node_tree] = map edge_ids [relabelled_tree, single_node_tree]
   \<and> get_batched_adjacency_lists [example_tree, single_node_tree]
       = get_batched_adjacency_lists [relabelled_tree, single_node_tree]
   \<and> init_indices example_encoder [example_tree, single_node_tree] [(0, (0, 0)), (1, (0, 1))]
       = init_indices other_encoder [relabelled_tree, single_node_tree] [(0, (0, 0)), (1, (0, 1))]"
proof -
  have a: "map edge_ids [example_tree, single_node_tree] = map edge_ids [relabelled_tree, single_node_tree]"
    by (simp add: edge_ids_def example_tree_def relabelled_tree_def example_root_def
        example_x_def example_y_def)
  have b: "map adjacent_terminal_nodes [example_tree, single_node_tree]
      = map adjacent_terminal_nodes [relabelled_tree, single_node_tree]"
    and c: "map id_to_node [example_tree, single_node_tree]
      = map id_to_node [relabelled_tree, single_node_tree]"
    by (simp_all add: example_tree_def relabelled_tree_def)
  have d: "vocab_source example_encoder = vocab_source other_encoder"
    and e: "vocab_source_len example_encoder = vocab_source_len other_encoder"
    and f: "syntax_type_to_id example_encoder = syntax_type_to_id other_encoder"
    by (simp_all add: example_encoder_def other_encoder_def)
  have g: "example_tree \<noteq> relabelled_tree"
    by (simp add: example_tree_def relabelled_tree_def)
  from two_run_determinism [OF a b c d e f, of "[(0, (0, 0)), (1, (0, 1))]"] a g
  show ?thesis by simp
qed

section \<open>The second dimension of the unpacked tensor\<close>

lemma embedding_length: "embedding weight idxs = Inr vs \<Longrightarrow> length vs = length idxs"
proof (induction idxs arbitrary: vs)
  case Nil
  then show ?case by simp
next
  case (Cons i idxs)
  from Cons.prems obtain vs' where rest: "embedding weight idxs = Inr vs'"
    and eq: "vs = weight ! nat i # vs'"
    by (auto split: if_splits sum.splits)
  from Cons.IH[OF rest] show ?case by (simp add: eq)
qed

lemma edge_keys_mapped: "(\<exists>k \<in> set (edge_keys n es). fst k = i) \<longleftrightarrow> i = n \<and> es \<noteq> []"
proof (cases es)
  case Nil
  then show ?thesis by (simp add: edge_keys_def)
next
  case (Cons e es')
  obtain p c where e: "e = (p, c)" by (cases e)
  have "(n, node_id p) \<in> set (edge_keys n es)" by (simp add: Cons e edge_keys_def)
  moreover have "\<forall>k \<in> set (edge_keys n es). fst k = n"
    using edge_keys_fst[of n es] by auto
  ultimately show ?thesis using Cons by auto
qed

lemma endpoints_mapped:
  "(\<exists>k \<in> set (concat (map (\<lambda>(i, t). edge_keys i (adjacency_list t)) (enumerate n asts))). fst k = i)
   \<longleftrightarrow> (\<exists>t. (i, t) \<in> set (enumerate n asts) \<and> adjacency_list t \<noteq> [])"
proof -
  have "(\<exists>k \<in> set (concat (map (\<lambda>(i, t). edge_keys i (adjacency_list t)) (enumerate n asts))). fst k = i)
      \<longleftrightarrow> (\<exists>p \<in> set (enumerate n asts). \<exists>k \<in> set (edge_keys (fst p) (adjacency_list (snd p))). fst k = i)"
    by (auto simp: case_prod_unfold)
  also have "\<dots> \<longleftrightarrow> (\<exists>p \<in> set (enumerate n asts). i = fst p \<and> adjacency_list (snd p) \<noteq> [])"
    by (simp only: edge_keys_mapped)
  also have "\<dots> \<longleftrightarrow> (\<exists>t. (i, t) \<in> set (enumerate n asts) \<and> adjacency_list t \<noteq> [])"
    by force
  finally show ?thesis .
qed

lemma enumerate_unique: "(i, t) \<in> set (enumerate n xs) \<Longrightarrow> (i, t') \<in> set (enumerate n xs) \<Longrightarrow> t = t'"
  by (simp add: in_set_enumerate_eq)

lemma spec_max_as_Max:
  assumes "fst ` set m = set (endpoints asts)"
  shows "spec_max_tree_size asts m
    = Max (insert 0 ((\<lambda>t. if adjacency_list t \<noteq> [] then tree_size t else 0) ` set asts))"
proof -
  let ?h = "\<lambda>t. if adjacency_list t \<noteq> [] then tree_size t else 0"
  have "map (\<lambda>(i, t). if \<exists>k \<in> set (map fst m). fst k = i then tree_size t else 0) (enumerate 0 asts)
      = map (?h \<circ> snd) (enumerate 0 asts)"
  proof (rule map_cong[OF refl])
    fix p assume p: "p \<in> set (enumerate 0 asts)"
    obtain i t where pt: "p = (i, t)" by (cases p)
    have "(\<exists>k \<in> set (map fst m). fst k = i) \<longleftrightarrow> (\<exists>k \<in> set (endpoints asts). fst k = i)"
      using assms by simp
    also have "\<dots> \<longleftrightarrow> (\<exists>t'. (i, t') \<in> set (enumerate 0 asts) \<and> adjacency_list t' \<noteq> [])"
      unfolding endpoints_def by (rule endpoints_mapped)
    also have "\<dots> \<longleftrightarrow> adjacency_list t \<noteq> []"
    proof
      assume "\<exists>t'. (i, t') \<in> set (enumerate 0 asts) \<and> adjacency_list t' \<noteq> []"
      then obtain t' where t': "(i, t') \<in> set (enumerate 0 asts)" "adjacency_list t' \<noteq> []"
        by blast
      from p pt t'(1) have "t' = t" by (simp add: in_set_enumerate_eq)
      with t'(2) show "adjacency_list t \<noteq> []" by simp
    next
      assume "adjacency_list t \<noteq> []"
      with p pt show "\<exists>t'. (i, t') \<in> set (enumerate 0 asts) \<and> adjacency_list t' \<noteq> []"
        by blast
    qed
    finally show "(case p of (i, t) \<Rightarrow> if \<exists>k \<in> set (map fst m). fst k = i then tree_size t else 0)
        = (?h \<circ> snd) p"
      by (simp add: pt)
  qed
  also have "\<dots> = map ?h asts"
  proof -
    have "map (?h \<circ> snd) (enumerate 0 asts) = map ?h (map snd (enumerate 0 asts))"
      by (simp only: map_map)
    then show ?thesis by (simp only: map_snd_enumerate)
  qed
  finally have "spec_max_tree_size asts m = fold max (map ?h asts) 0"
    by (simp add: spec_max_tree_size_def)
  also have "\<dots> = Max (set (0 # map ?h asts))"
    by (rule Max.set_eq_fold[symmetric])
  finally show ?thesis by simp
qed

lemma unpack_mapped_dimension:
  assumes g: "get_batched_adjacency_lists asts = Inr (adj_lists, m, rev_m)"
    and len: "length flat = length m"
    and u: "unpack_batch_encoding flat asts m = Inr r"
    and wf: "\<forall>t \<in> set asts. edge_list_constraint t"
  shows "Max (tree_size ` set asts) = spec_max_tree_size asts m"
proof -
  let ?h = "\<lambda>t. if adjacency_list t \<noteq> [] then tree_size t else 0"
  have leaf: "tree_size t = 1" if "t \<in> set asts" "adjacency_list t = []" for t
    using wf that by (auto simp: edge_list_constraint_def)
  have inner: "1 \<le> tree_size t" if "t \<in> set asts" "adjacency_list t \<noteq> []" for t
    using wf that by (auto simp: edge_list_constraint_def)
  note gb = graph_build[OF g]
  have keys: "fst ` set m = set (endpoints asts)"
    unfolding gb(1) by (simp add: assign_keys_keys)
  have spec: "spec_max_tree_size asts m = Max (insert 0 (?h ` set asts))"
    using keys by (rule spec_max_as_Max)
  from u obtain n index gathered where
    n: "max_node_num asts = Inr n"
    and rows: "index_rows n 0 asts m = Inr (index, batch_tree_node_masks r)"
    and ga: "gather flat index = Inr gathered"
    by (rule unpack_parts)
  note mx = max_node_num_Max[OF n]
  note shape = index_rows_shape[OF rows]
  note gn = gather_nth[OF ga]
  have ne: "asts \<noteq> []" using mx by simp
  have edges: "\<exists>t \<in> set asts. adjacency_list t \<noteq> []"
  proof (rule ccontr)
    assume "\<not> (\<exists>t \<in> set asts. adjacency_list t \<noteq> [])"
    then have none: "\<forall>t \<in> set asts. adjacency_list t = []" by simp
    then have "\<forall>t \<in> set asts. tree_size t = 1" using leaf by blast
    then have all1: "\<forall>t \<in> set asts. tree_size t = 1" .
    obtain t ts where cons: "asts = t # ts" using ne by (cases asts) auto
    have "tree_size t \<in> tree_size ` set asts" by (simp add: cons)
    moreover have "\<forall>a \<in> tree_size ` set asts. a = 1" using all1 by auto
    ultimately have "tree_size ` set asts = {1}" by auto
    then have n1: "n = 1" using mx by simp
    have nokey: "\<not> (\<exists>k \<in> set (endpoints asts). fst k = i)" for i
      unfolding endpoints_def endpoints_mapped using none by (auto simp: in_set_enumerate_eq)
    have "set (endpoints asts) = {}"
    proof (cases "endpoints asts")
      case Nil
      then show ?thesis by simp
    next
      case (Cons k ks)
      then have "k \<in> set (endpoints asts)" by simp
      with nokey[of "fst k"] show ?thesis by blast
    qed
    then have "m = []" using keys by simp
    then have flat: "flat = []" using len by simp
    have i0: "0 < length index" using shape ne by simp
    then have "index ! 0 \<in> set index" by simp
    then have "length (index ! 0) = 1" using shape n1 by simp
    then have "gathered ! 0 ! 0 \<in> set flat" using gn i0 by simp
    then show False using flat by simp
  qed
  then obtain t0 where t0: "t0 \<in> set asts" "adjacency_list t0 \<noteq> []" by blast
  have one: "1 \<le> tree_size t0" using t0 by (rule inner)
  have fin: "finite (insert 0 (?h ` set asts))" "finite (tree_size ` set asts)" by simp_all
  have h0: "tree_size t0 \<le> Max (insert 0 (?h ` set asts))"
  proof (rule Max_ge[OF fin(1)])
    have "?h t0 \<in> ?h ` set asts" using t0(1) by (rule imageI)
    then show "tree_size t0 \<in> insert 0 (?h ` set asts)" using t0(2) by simp
  qed
  have le1: "Max (tree_size ` set asts) \<le> Max (insert 0 (?h ` set asts))"
  proof (rule Max.boundedI[OF fin(2)])
    show "tree_size ` set asts \<noteq> {}" using ne by simp
  next
    fix a assume "a \<in> tree_size ` set asts"
    then obtain t where t: "t \<in> set asts" "a = tree_size t" by blast
    show "a \<le> Max (insert 0 (?h ` set asts))"
    proof (cases "adjacency_list t = []")
      case True
      then have "a = 1" using leaf t by simp
      with one h0 show ?thesis by simp
    next
      case False
      have "?h t \<in> ?h ` set asts" using t(1) by (rule imageI)
      then have "a \<in> insert 0 (?h ` set asts)" using False t(2) by simp
      then show ?thesis by (rule Max_ge[OF fin(1)])
    qed
  qed
  have le2: "Max (insert 0 (?h ` set asts)) \<le> Max (tree_size ` set asts)"
  proof (rule Max.boundedI[OF fin(1)])
    show "insert 0 (?h ` set asts) \<noteq> {}" by simp
  next
    fix a assume "a \<in> insert 0 (?h ` set asts)"
    then consider "a = 0" | t where "t \<in> set asts" "a = ?h t" by blast
    then show "a \<le> Max (tree_size ` set asts)"
    proof cases
      case 1
      then show ?thesis by simp
    next
      case 2
      have "tree_size t \<le> Max (tree_size ` set asts)"
        using 2(1) by (intro Max_ge[OF fin(2)] imageI)
      with 2(2) show ?thesis by simp
    qed
  qed
  from le1 le2 have "Max (tree_size ` set asts) = Max (insert 0 (?h ` set asts))"
    by (rule antisym)
  then show ?thesis by (simp only: spec)
qed

lemma forward_parts:
  assumes "forward enc asts = (calls, Inr r)"
  obtains adj_lists m rev_m idxs init out where
    "get_batched_adjacency_lists asts = Inr (adj_lists, m, rev_m)"
    "init_indices enc asts rev_m = Inr idxs"
    "embedding (src_node_embedding enc) idxs = Inr init"
    "gnn enc init adj_lists = Inr out"
    "unpack_batch_encoding out asts m = Inr r"
    "calls = [(init, adj_lists)]"
  using assms
  by (auto simp: forward_def get_batched_tree_init_encoding_def split: sum.splits prod.splits)

text \<open>
  C6. Let every tree of the batch satisfy the edge-list constraint and let the network
  return as many vectors as it is given. Then in every result of \<open>forward\<close> there is
  one row per tree, and every row of the mask and of the encoding has length the largest
  node count among the trees that have a node in the dict, a tree without one (a single
  node, no edges) counting 0. A batch in which no tree has a node in the dict gives no
  result: the gather fails on the empty tensor.
\<close>

theorem max_tree_size_of_mapped_trees:
  assumes "forward enc asts = (calls, Inr r)"
    and "get_batched_adjacency_lists asts = Inr (adj_lists, m, rev_m)"
    and "\<forall>init adj out. gnn enc init adj = Inr out \<longrightarrow> length out = length init"
    and "\<forall>t \<in> set asts. edge_list_constraint t"
  shows "length (batch_tree_node_masks r) = length asts
    \<and> length (batch_tree_node_encoding r) = length asts
    \<and> (\<forall>row \<in> set (batch_tree_node_masks r). length row = spec_max_tree_size asts m)
    \<and> (\<forall>row \<in> set (batch_tree_node_encoding r). length row = spec_max_tree_size asts m)"
proof -
  from assms(1) obtain adj_lists' m' rev_m' idxs init out where
    g: "get_batched_adjacency_lists asts = Inr (adj_lists', m', rev_m')"
    and i: "init_indices enc asts rev_m' = Inr idxs"
    and e: "embedding (src_node_embedding enc) idxs = Inr init"
    and n: "gnn enc init adj_lists' = Inr out"
    and u: "unpack_batch_encoding out asts m' = Inr r"
    by (rule forward_parts)
  from g assms(2) have same: "adj_lists' = adj_lists" "m' = m" "rev_m' = rev_m" by simp_all
  have "length rev_m = length m"
    using graph_build(4)[OF assms(2)] by simp
  moreover have "length idxs = length rev_m"
    using init_indices_nth[OF i] by (simp add: same)
  moreover have "length init = length idxs" using e by (rule embedding_length)
  moreover have "length out = length init" using assms(3) n by blast
  ultimately have len: "length out = length m" by simp
  have "Max (tree_size ` set asts) = spec_max_tree_size asts m"
    using assms(2) len u[unfolded same] assms(4) by (rule unpack_mapped_dimension)
  with unpack_row_length[OF u] show ?thesis by simp
qed

lemma small_batch_graph:
  "get_batched_adjacency_lists [example_tree, single_node_tree]
     = Inr (small_adj_lists, small_map, [(0, (0, 0)), (1, (0, 1)), (2, (0, 2))])"
  by (simp add: get_batched_adjacency_lists_def empty_state_def setdefault_def ordered_dict_def
      example_tree_def single_node_tree_def example_root_def example_x_def example_y_def
      small_map_def small_adj_lists_def Let_def)

lemma small_batch_forward:
  "forward example_encoder [example_tree, single_node_tree]
     = ([([[30, 31], [10, 11], [20, 21]], small_adj_lists)], Inr small_unpacked)"
proof -
  have i: "init_indices example_encoder [example_tree, single_node_tree]
      [(0, (0, 0)), (1, (0, 1)), (2, (0, 2))] = Inr [2, 0, 1]"
    by (simp add: example_encoder_def example_tree_def single_node_tree_def
        example_root_def example_x_def example_y_def)
  have e: "embedding (src_node_embedding example_encoder) [2, 0, 1]
      = Inr [[30, 31], [10, 11], [20, 21]]"
    by (simp add: example_encoder_def)
  have n: "gnn example_encoder [[30, 31], [10, 11], [20, 21]] small_adj_lists
      = Inr [[30, 31], [10, 11], [20, 21]]"
    by (simp add: example_encoder_def echo_gnn_def)
  have u: "unpack_batch_encoding [[30, 31], [10, 11], [20, 21]] [example_tree, single_node_tree]
      small_map = Inr small_unpacked"
    by (simp add: unpack_batch_encoding_def max_node_num_def example_nodes_batch_id_def
        index_row_def mask_row_def masked_fill_def masked_fill_row_def small_map_def
        small_unpacked_def example_tree_def single_node_tree_def Let_def eval_nat_numeral)
  show ?thesis
    by (simp only: forward_def small_batch_graph get_batched_tree_init_encoding_def i e n u
        sum.case prod.case)
qed

lemma single_node_batch_forward:
  "forward example_encoder [single_node_tree]
     = ([([], [\<lparr>node_num = 0, adj_list = []\<rparr>, \<lparr>node_num = 0, adj_list = []\<rparr>])],
        Inl IndexError)"
proof -
  have u: "unpack_batch_encoding ([] :: int list list) [single_node_tree] [] = Inl IndexError"
    by (simp add: unpack_batch_encoding_def max_node_num_def example_nodes_batch_id_def
        index_row_def mask_row_def single_node_tree_def Let_def)
  show ?thesis
    by (simp add: forward_def single_batch_graph get_batched_tree_init_encoding_def
        example_encoder_def echo_gnn_def u)
qed

theorem max_tree_size_of_mapped_trees_witness:
  "forward example_encoder [example_tree, single_node_tree]
     = ([([[30, 31], [10, 11], [20, 21]], small_adj_lists)], Inr small_unpacked)
   \<and> get_batched_adjacency_lists [example_tree, single_node_tree]
       = Inr (small_adj_lists, small_map, [(0, (0, 0)), (1, (0, 1)), (2, (0, 2))])
   \<and> edge_list_constraint example_tree \<and> edge_list_constraint single_node_tree
   \<and> map length (batch_tree_node_masks small_unpacked) = [3, 3]
   \<and> spec_max_tree_size [example_tree, single_node_tree] small_map = 3"
proof -
  have c: "\<forall>init adj out. gnn example_encoder init adj = Inr out \<longrightarrow> length out = length init"
    by (simp add: example_encoder_def echo_gnn_def)
  have wa: "edge_list_constraint example_tree" and wb: "edge_list_constraint single_node_tree"
    by (simp_all add: edge_list_constraint_def example_tree_def single_node_tree_def)
  then have w: "\<forall>t \<in> set [example_tree, single_node_tree]. edge_list_constraint t" by simp
  note t = max_tree_size_of_mapped_trees [OF small_batch_forward small_batch_graph c w]
  have l: "map length (batch_tree_node_masks small_unpacked) = [3, 3]"
    by (simp add: small_unpacked_def)
  have "batch_tree_node_masks small_unpacked ! 0 \<in> set (batch_tree_node_masks small_unpacked)"
    by (simp add: small_unpacked_def)
  with t have "length (batch_tree_node_masks small_unpacked ! 0)
      = spec_max_tree_size [example_tree, single_node_tree] small_map" by blast
  then have s: "spec_max_tree_size [example_tree, single_node_tree] small_map = 3"
    by (simp add: small_unpacked_def)
  from small_batch_forward small_batch_graph wa wb l s show ?thesis by blast
qed

end
